theory Spec2Isabelle
  imports Complex_Main
begin

section \<open>Characters and the string primitives of the source\<close>

text \<open>
  The program is \<^verbatim>\<open>app.py\<close>: a PDF text extractor followed by a heuristic, regex-driven
  extractive summarizer. A Python \<^verbatim>\<open>str\<close> is a sequence of code points. The embedding
  takes the 8-bit type \<^typ>\<open>char\<close> as the code points U+0000..U+00FF, so a text is a
  \<^typ>\<open>string\<close> and \<^verbatim>\<open>len\<close> is \<^const>\<open>length\<close>. On that range the classes below are the
  ones Python 3 uses: \<^verbatim>\<open>str.isspace\<close> (which is also \<^verbatim>\<open>\s\<close> and what \<^verbatim>\<open>strip()\<close> and
  \<^verbatim>\<open>split()\<close> remove), the decimal digits of \<^verbatim>\<open>\d\<close>, the word characters of \<^verbatim>\<open>\w\<close>
  (alphanumerics and the underscore) and \<^verbatim>\<open>str.lower\<close>.
\<close>

definition cp :: "char \<Rightarrow> nat" where
  "cp c = of_char c"

definition TAB :: char where "TAB = char_of (9::nat)"
definition LF :: char where "LF = char_of (10::nat)"
definition CR :: char where "CR = char_of (13::nat)"
definition NBSP :: char where "NBSP = char_of (160::nat)"

definition is_space :: "char \<Rightarrow> bool" where
  "is_space c = (let n = cp c in
     (9 \<le> n \<and> n \<le> 13) \<or> (28 \<le> n \<and> n \<le> 32) \<or> n = 133 \<or> n = 160)"

definition is_digit :: "char \<Rightarrow> bool" where
  "is_digit c = (let n = cp c in 48 \<le> n \<and> n \<le> 57)"

definition is_upper_AZ :: "char \<Rightarrow> bool" where
  "is_upper_AZ c = (let n = cp c in 65 \<le> n \<and> n \<le> 90)"

definition is_word :: "char \<Rightarrow> bool" where
  "is_word c = (let n = cp c in
     (48 \<le> n \<and> n \<le> 57) \<or> (65 \<le> n \<and> n \<le> 90) \<or> n = 95 \<or> (97 \<le> n \<and> n \<le> 122) \<or>
     n = 170 \<or> n = 178 \<or> n = 179 \<or> n = 181 \<or> n = 185 \<or> n = 186 \<or>
     (188 \<le> n \<and> n \<le> 190) \<or> (192 \<le> n \<and> n \<le> 214) \<or> (216 \<le> n \<and> n \<le> 246) \<or>
     (248 \<le> n \<and> n \<le> 255))"

definition lower_ch :: "char \<Rightarrow> char" where
  "lower_ch c = (let n = cp c in
     if (65 \<le> n \<and> n \<le> 90) \<or> (192 \<le> n \<and> n \<le> 214) \<or> (216 \<le> n \<and> n \<le> 222)
     then char_of (n + 32) else c)"

definition py_lower :: "string \<Rightarrow> string" where
  "py_lower s = map lower_ch s"

definition py_strip :: "string \<Rightarrow> string" where
  "py_strip s = rev (dropWhile is_space (rev (dropWhile is_space s)))"

fun py_split :: "'a \<Rightarrow> 'a list \<Rightarrow> 'a list list" where
  "py_split sep [] = [[]]"
| "py_split sep (c # cs) =
     (if c = sep then [] # py_split sep cs
      else (case py_split sep cs of [] \<Rightarrow> [[c]] | x # xs \<Rightarrow> (c # x) # xs))"

fun py_join :: "'a list \<Rightarrow> 'a list list \<Rightarrow> 'a list" where
  "py_join sep [] = []"
| "py_join sep [x] = x"
| "py_join sep (x # y # ys) = x @ sep @ py_join sep (y # ys)"

section \<open>The fragment of Python's re that the source uses\<close>

text \<open>
  Every pattern of the source is built from literals, single character classes, greedy
  repetitions of a character class, sequence, alternation, the anchors \<^verbatim>\<open>^\<close> and \<^verbatim>\<open>$\<close>,
  the word boundary \<^verbatim>\<open>\b\<close> and one-character look-behind and look-ahead. \<^verbatim>\<open>Rep P lo hi\<close>
  is \<^verbatim>\<open>[P]{lo,hi}\<close>, with \<^verbatim>\<open>None\<close> for no upper bound.

  \<^verbatim>\<open>ends ci r p s\<close> lists, in the order in which a backtracking matcher tries them, the
  numbers of characters that \<^verbatim>\<open>r\<close> can consume at the front of \<^verbatim>\<open>s\<close>, where \<^verbatim>\<open>p\<close> is
  the character before \<^verbatim>\<open>s\<close> in the whole text (\<^verbatim>\<open>None\<close> at its start) and \<^verbatim>\<open>ci\<close> is the
  flag \<^verbatim>\<open>re.I\<close>. The first element is the match Python reports at that position.
  \<^verbatim>\<open>re.search\<close>, \<^verbatim>\<open>re.sub\<close>, \<^verbatim>\<open>re.split\<close> and \<^verbatim>\<open>re.findall\<close> scan the text from left to
  right and continue behind each match. None of the patterns that the source passes to
  \<^verbatim>\<open>sub\<close>, \<^verbatim>\<open>split\<close> or \<^verbatim>\<open>findall\<close> can match the empty string, so the scanners treat an
  empty match as no match.
\<close>

datatype rx =
    Lit string
  | Cls "char \<Rightarrow> bool"
  | Rep "char \<Rightarrow> bool" nat "nat option"
  | Seq rx rx
  | Alt rx rx
  | Bol
  | Eol
  | WordB
  | Behind "char \<Rightarrow> bool"
  | Ahead "char \<Rightarrow> bool"

definition fold_case :: "bool \<Rightarrow> string \<Rightarrow> string" where
  "fold_case ci s = (if ci then map lower_ch s else s)"

definition prev_after :: "char option \<Rightarrow> string \<Rightarrow> nat \<Rightarrow> char option" where
  "prev_after p s k = (if k = 0 then p else Some (s ! (k - 1)))"

definition word_at :: "char option \<Rightarrow> bool" where
  "word_at oc = (case oc of None \<Rightarrow> False | Some c \<Rightarrow> is_word c)"

definition first_ch :: "string \<Rightarrow> char option" where
  "first_ch s = (case s of [] \<Rightarrow> None | c # _ \<Rightarrow> Some c)"

fun ends :: "bool \<Rightarrow> rx \<Rightarrow> char option \<Rightarrow> string \<Rightarrow> nat list" where
  "ends ci (Lit l) p s =
     (if length l \<le> length s \<and> fold_case ci (take (length l) s) = fold_case ci l
      then [length l] else [])"
| "ends ci (Cls P) p s = (case s of [] \<Rightarrow> [] | c # _ \<Rightarrow> if P c then [1] else [])"
| "ends ci (Rep P lo hi) p s =
     (let n = length (takeWhile P s);
          m = (case hi of None \<Rightarrow> n | Some h \<Rightarrow> min n h)
      in rev [lo ..< Suc m])"
| "ends ci (Seq a b) p s =
     concat (map (\<lambda>k. map (\<lambda>j. k + j) (ends ci b (prev_after p s k) (drop k s))) (ends ci a p s))"
| "ends ci (Alt a b) p s = ends ci a p s @ ends ci b p s"
| "ends ci Bol p s = (if p = None then [0] else [])"
| "ends ci Eol p s = (if s = [] \<or> s = [LF] then [0] else [])"
| "ends ci WordB p s = (if word_at p \<noteq> word_at (first_ch s) then [0] else [])"
| "ends ci (Behind P) p s = (case p of None \<Rightarrow> [] | Some c \<Rightarrow> if P c then [0] else [])"
| "ends ci (Ahead P) p s = (case s of [] \<Rightarrow> [] | c # _ \<Rightarrow> if P c then [0] else [])"

definition match_here :: "bool \<Rightarrow> rx \<Rightarrow> char option \<Rightarrow> string \<Rightarrow> nat option" where
  "match_here ci r p s = (case ends ci r p s of [] \<Rightarrow> None | k # _ \<Rightarrow> Some k)"

fun search_from :: "bool \<Rightarrow> rx \<Rightarrow> char option \<Rightarrow> string \<Rightarrow> bool" where
  "search_from ci r p [] = (match_here ci r p [] \<noteq> None)"
| "search_from ci r p (c # cs) =
     (match_here ci r p (c # cs) \<noteq> None \<or> search_from ci r (Some c) cs)"

definition re_search :: "bool \<Rightarrow> rx \<Rightarrow> string \<Rightarrow> bool" where
  "re_search ci r s = search_from ci r None s"

fun sub_from :: "bool \<Rightarrow> rx \<Rightarrow> string \<Rightarrow> char option \<Rightarrow> string \<Rightarrow> string" where
  "sub_from ci r rep p [] = []"
| "sub_from ci r rep p (c # cs) =
     (case match_here ci r p (c # cs) of
        Some (Suc k) \<Rightarrow> rep @ sub_from ci r rep (Some ((c # cs) ! k)) (drop k cs)
      | _ \<Rightarrow> c # sub_from ci r rep (Some c) cs)"

definition re_sub :: "bool \<Rightarrow> rx \<Rightarrow> string \<Rightarrow> string \<Rightarrow> string" where
  "re_sub ci r rep s = sub_from ci r rep None s"

fun split_from :: "bool \<Rightarrow> rx \<Rightarrow> char option \<Rightarrow> string \<Rightarrow> string list" where
  "split_from ci r p [] = [[]]"
| "split_from ci r p (c # cs) =
     (case match_here ci r p (c # cs) of
        Some (Suc k) \<Rightarrow> [] # split_from ci r (Some ((c # cs) ! k)) (drop k cs)
      | _ \<Rightarrow> (case split_from ci r (Some c) cs of
                [] \<Rightarrow> [[c]]
              | x # xs \<Rightarrow> (c # x) # xs))"

definition re_split :: "bool \<Rightarrow> rx \<Rightarrow> string \<Rightarrow> string list" where
  "re_split ci r s = split_from ci r None s"

fun findall_from :: "bool \<Rightarrow> rx \<Rightarrow> char option \<Rightarrow> string \<Rightarrow> string list" where
  "findall_from ci r p [] = []"
| "findall_from ci r p (c # cs) =
     (case match_here ci r p (c # cs) of
        Some (Suc k) \<Rightarrow> take (Suc k) (c # cs) # findall_from ci r (Some ((c # cs) ! k)) (drop k cs)
      | _ \<Rightarrow> findall_from ci r (Some c) cs)"

definition re_findall :: "bool \<Rightarrow> rx \<Rightarrow> string \<Rightarrow> string list" where
  "re_findall ci r s = findall_from ci r None s"

fun alts :: "string list \<Rightarrow> rx" where
  "alts [] = Cls (\<lambda>_. False)"
| "alts [l] = Lit l"
| "alts (l # ls) = Alt (Lit l) (alts ls)"

fun seqs :: "rx list \<Rightarrow> rx" where
  "seqs [] = Lit []"
| "seqs [r] = r"
| "seqs (r # rs) = Seq r (seqs rs)"


section \<open>Text normalisation (lines 36--66 of app.py)\<close>

text \<open>
  \<^verbatim>\<open>_normalize_whitespace\<close> and \<^verbatim>\<open>_strip_headers_footers\<close>. The patterns are, in order,
  \<^verbatim>\<open>\r\n|\r\<close>, \<^verbatim>\<open>[\t\u00A0]+\<close>, \<^verbatim>\<open>\n{3,}\<close>, \<^verbatim>\<open>^\s*\d+\s*$\<close>,
  \<^verbatim>\<open>\b(page|annual report|confidential|draft)\b\<close> (with \<^verbatim>\<open>re.I\<close>) and \<^verbatim>\<open>https?://\<close>.
  Python's slices \<^verbatim>\<open>lines[:4]\<close>, \<^verbatim>\<open>lines[-4:]\<close>, \<^verbatim>\<open>lines[4:]\<close> and \<^verbatim>\<open>lines[:-4]\<close> are
  \<^const>\<open>take\<close> and \<^const>\<open>drop\<close>; a leading underscore of a source name is dropped, and the
  source's variable \<^verbatim>\<open>ln\<close> is called \<^verbatim>\<open>line\<close>.
\<close>

definition HEADER_FOOTER_MAX_LINES :: nat where
  "HEADER_FOOTER_MAX_LINES = 4"

definition pat_line_ending :: rx where
  "pat_line_ending = Alt (Lit [CR, LF]) (Lit [CR])"

definition pat_tab_nbsp :: rx where
  "pat_tab_nbsp = Rep (\<lambda>c. c = TAB \<or> c = NBSP) 1 None"

definition pat_blank_lines :: rx where
  "pat_blank_lines = Rep (\<lambda>c. c = LF) 3 None"

definition normalize_whitespace :: "string \<Rightarrow> string" where
  "normalize_whitespace text0 =
     (let text = re_sub False pat_line_ending [LF] text0;
          text = re_sub False pat_tab_nbsp '' '' text;
          text = re_sub False pat_blank_lines [LF, LF] text
      in py_strip text)"

definition pat_page_number :: rx where
  "pat_page_number = seqs [Bol, Rep is_space 0 None, Rep is_digit 1 None, Rep is_space 0 None, Eol]"

definition pat_boilerplate :: rx where
  "pat_boilerplate =
     seqs [WordB, alts [''page'', ''annual report'', ''confidential'', ''draft''], WordB]"

definition pat_url :: rx where
  "pat_url = seqs [Lit ''http'', Rep (\<lambda>c. c = CHR ''s'') 0 (Some 1), Lit ''://'']"

definition is_header_footer_line :: "string \<Rightarrow> bool" where
  "is_header_footer_line line =
     (re_search False pat_page_number line
      \<or> re_search True pat_boilerplate line
      \<or> re_search False pat_url line)"

definition strip_headers_footers :: "string \<Rightarrow> string" where
  "strip_headers_footers text =
     (let lines = py_split LF text in
      if length lines \<le> HEADER_FOOTER_MAX_LINES * 2 then text
      else
        let top = take HEADER_FOOTER_MAX_LINES lines;
            bottom = drop (length lines - HEADER_FOOTER_MAX_LINES) lines;
            remove_top = list_all (\<lambda>line. is_header_footer_line line \<or> length line \<le> 2) top;
            remove_bottom = list_all (\<lambda>line. is_header_footer_line line \<or> length line \<le> 2) bottom;
            lines = (if remove_top then drop HEADER_FOOTER_MAX_LINES lines else lines);
            lines = (if remove_bottom then take (length lines - HEADER_FOOTER_MAX_LINES) lines
                     else lines)
        in py_strip (py_join [LF] lines))"

section \<open>Heuristic summarizer (lines 123--195 of app.py)\<close>

text \<open>
  The sentence boundary is \<^verbatim>\<open>(?<=[.!?])\s+(?=[A-Z(0-9)])\<close>: inside the brackets both
  parentheses are literal characters, so the class after the gap is \<^verbatim>\<open>A-Z\<close>, \<^verbatim>\<open>0-9\<close>,
  \<^verbatim>\<open>(\<close> and \<^verbatim>\<open>)\<close>. The numeric token is \<^verbatim>\<open>\b\d[\d,\.]*\b\<close> and the deduplication key
  replaces \<^verbatim>\<open>\W+\<close>. The keyword patterns are alternations of literals searched with
  \<^verbatim>\<open>re.I\<close>.

  The source computes scores in binary floating point. The model computes the same sums
  exactly, in \<^typ>\<open>real\<close>; the ranking lemmas below hold for every scoring function.
  \<^verbatim>\<open>list.sort(key=..., reverse=True)\<close> is stable and descending, which is
  \<^const>\<open>sort_key\<close> on the negated key.
\<close>

definition SECTION_PATTERNS :: "(string \<times> rx) list" where
  "SECTION_PATTERNS =
     [(''financials'', alts [''revenue'', ''ebit'', ''ebitda'', ''pat'', ''profit'', ''loss'',
         ''income'', ''balance sheet'', ''cash flow'', ''financial highlight'']),
      (''risks'', alts [''risk'', ''outlook'', ''challenge'', ''headwind'', ''uncertaint'']),
      (''strategy'', alts [''strategy'', ''strategic'', ''priority'', ''roadmap'', ''growth'',
         ''investment'', ''innovation'', ''market'', ''product'', ''segment''])]"

definition sentence_end :: "char \<Rightarrow> bool" where
  "sentence_end c = (c = CHR ''.'' \<or> c = CHR ''!'' \<or> c = CHR ''?'')"

definition sentence_start :: "char \<Rightarrow> bool" where
  "sentence_start c = (is_upper_AZ c \<or> c = CHR ''('' \<or> is_digit c \<or> c = CHR '')'')"

definition pat_sentence_gap :: rx where
  "pat_sentence_gap = seqs [Behind sentence_end, Rep is_space 1 None, Ahead sentence_start]"

definition pat_spaces :: rx where
  "pat_spaces = Rep is_space 1 None"

definition split_sentences :: "string \<Rightarrow> string list" where
  "split_sentences text =
     (let parts = re_split False pat_sentence_gap text
      in filter (\<lambda>s. 30 \<le> length s) (map (\<lambda>s. py_strip (re_sub False pat_spaces '' '' s)) parts))"

fun split_ws_from :: "string \<Rightarrow> string \<Rightarrow> string list" where
  "split_ws_from w [] = (if w = [] then [] else [rev w])"
| "split_ws_from w (c # cs) =
     (if is_space c then (if w = [] then split_ws_from [] cs else rev w # split_ws_from [] cs)
      else split_ws_from (c # w) cs)"

definition py_split_ws :: "string \<Rightarrow> string list" where
  "py_split_ws s = split_ws_from [] s"

definition pat_numeric :: rx where
  "pat_numeric =
     seqs [WordB, Cls is_digit,
           Rep (\<lambda>c. is_digit c \<or> c = CHR '','' \<or> c = CHR ''.'') 0 None, WordB]"

definition pat_domain :: rx where
  "pat_domain = alts [''yoy'', ''qoq'', ''guidance'', ''margin'', ''dividend'', ''order book'',
     ''backlog'', ''capex'', ''opex'', ''free cash'']"

definition pat_disclaimer :: rx where
  "pat_disclaimer = alts [''forward-looking'', ''statutory'', ''notes to accounts'', ''auditor'',
     ''secretarial'']"

definition score_sentence :: "string \<Rightarrow> real" where
  "score_sentence sentence =
     (let s = sentence;
          score = 0.0;
          words = py_split_ws s;
          len = length words;
          score = (if 12 \<le> len \<and> len \<le> 40 then score + 1.0
                   else if len > 8 then score + 0.5 else score);
          numerics = re_findall False pat_numeric s;
          score = score + min 3.0 (0.3 * real (length numerics));
          score = foldl (\<lambda>sc (_, pat). if re_search True pat s then sc + 0.7 else sc)
                    score SECTION_PATTERNS;
          score = (if re_search True pat_domain s then score + 0.6 else score);
          score = (if re_search True pat_disclaimer s then score - 0.8 else score)
      in score)"

definition pat_nonword :: rx where
  "pat_nonword = Rep (\<lambda>c. \<not> is_word c) 1 None"

definition dedup_key :: "string \<Rightarrow> string" where
  "dedup_key s = py_strip (re_sub False pat_nonword '' '' (py_lower s))"

fun dedup_loop :: "string list \<Rightarrow> string set \<Rightarrow> string list \<Rightarrow> string list" where
  "dedup_loop [] seen unique = unique"
| "dedup_loop (s # ss) seen unique =
     (let key = dedup_key s in
      if key \<noteq> [] \<and> key \<notin> seen then dedup_loop ss (insert key seen) (unique @ [s])
      else dedup_loop ss seen unique)"

definition sort_by_score_desc :: "(string \<times> real) list \<Rightarrow> (string \<times> real) list" where
  "sort_by_score_desc scored = sort_key (\<lambda>t. - snd t) scored"

definition pick_top_sentences :: "string \<Rightarrow> nat \<Rightarrow> string list" where
  "pick_top_sentences all_text max_sentences =
     (let sentences = split_sentences all_text;
          unique = dedup_loop sentences {} [];
          scored = map (\<lambda>s. (s, score_sentence s)) unique;
          scored = sort_by_score_desc scored
      in map fst (take max_sentences scored))"

record summary_result =
  summary :: string
  key_points :: "string list"

function chunk_loop :: "nat \<Rightarrow> nat \<Rightarrow> string list \<Rightarrow> string list \<Rightarrow> string list" where
  "chunk_loop i sz pages chunks =
     (if 0 < sz \<and> i < length pages
      then chunk_loop (i + sz) sz pages (chunks @ [py_join [LF, LF] (take sz (drop i pages))])
      else chunks)"
  by pat_completeness auto
termination
proof (relation "measure (\<lambda>(i, sz, pages, chunks). length pages - i)")
  show "wf (measure (\<lambda>(i, sz, pages, chunks). length pages - i))"
    by simp
next
  fix i sz :: nat and pages chunks :: "string list"
  assume "0 < sz \<and> i < length pages"
  then have "length pages - (i + sz) < length pages - i"
    by arith
  then show "((i + sz, sz, pages, chunks @ [py_join [LF, LF] (take sz (drop i pages))]),
              (i, sz, pages, chunks))
             \<in> measure (\<lambda>(i, sz, pages, chunks). length pages - i)"
    by simp
qed

declare chunk_loop.simps [simp del]

definition summarize_text :: "string list \<Rightarrow> summary_result" where
  "summarize_text pages =
     (if pages = [] then \<lparr>summary = [], key_points = []\<rparr>
      else
        let sz = 3;
            chunks = chunk_loop 0 sz pages [];
            all_points = foldl (\<lambda>acc chunk. acc @ pick_top_sentences chunk 7) [] chunks;
            rescored = map (\<lambda>s. (s, score_sentence s)) all_points;
            rescored = sort_by_score_desc rescored;
            top_points = map fst (take 12 rescored);
            combined_first = (if chunks \<noteq> [] then py_join [LF, LF] (take 3 chunks)
                              else py_join [LF, LF] (take 3 pages));
            summary_sentences = pick_top_sentences combined_first 8;
            summary = py_join '' '' summary_sentences
        in \<lparr>summary = summary, key_points = top_points\<rparr>)"



section \<open>Page extraction (lines 69--118 of app.py) and the pipeline entry point (lines 198--218)\<close>

text \<open>
  The libraries are parameters. \<^verbatim>\<open>fitz\<close> and \<^verbatim>\<open>extract_pages\<close> are the module-level names
  of the source: \<^verbatim>\<open>None\<close> when the import failed, otherwise what opening and reading the
  document returns (\<^verbatim>\<open>Inl\<close> when anything raises on the way). \<^verbatim>\<open>ocr_text\<close> is what rendering
  a page and \<^verbatim>\<open>pytesseract.image_to_string\<close> give for it. The filesystem is a \<^verbatim>\<open>world\<close>:
  which paths are regular files, and the trace of the backend calls and writes made so far.
  The check of line 104 is an \<^verbatim>\<open>assert\<close>, executed as in the interpreter's default mode;
  the exception it raises is \<^verbatim>\<open>AssertionError\<close>. The \<^verbatim>\<open>except Exception\<close> clauses catch
  every error of a backend, including an \<^verbatim>\<open>AssertionError\<close> raised inside it.
  \<^verbatim>\<open>stem_of\<close> stands for \<^verbatim>\<open>os.path.splitext(os.path.basename(p))[0]\<close>.
\<close>

datatype error = AssertionError | RuntimeError | LibraryError











section \<open>Notions used to state the properties\<close>

text \<open>How many entries of a list have the deduplication key \<^verbatim>\<open>k\<close>.\<close>

definition key_count :: "string \<Rightarrow> string list \<Rightarrow> nat" where
  "key_count k xs = length (filter (\<lambda>s. dedup_key s = k) xs)"



text \<open>A sentence that, as running boilerplate, stands alone on each page of a document.\<close>

definition boilerplate_sentence :: string where
  "boilerplate_sentence = ''Revenue grew 12% in core markets this year.''"

text \<open>
  The lines that stay when the top block, the bottom block, both or neither are cut, and the
  test that the source applies to each line of a block.
\<close>

definition kept_lines :: "bool \<Rightarrow> bool \<Rightarrow> string list \<Rightarrow> string list" where
  "kept_lines cut_top cut_bottom ls =
     take (length ls - (if cut_top then 4 else 0) - (if cut_bottom then 4 else 0))
          (drop (if cut_top then 4 else 0) ls)"

definition boilerplate_line :: "string \<Rightarrow> bool" where
  "boilerplate_line line =
     (length line \<le> 2
      \<or> re_search False pat_page_number line
      \<or> re_search True pat_boilerplate line
      \<or> re_search False pat_url line)"


text \<open>Whether a text contains three newlines in a row.\<close>

fun has_blank_run :: "string \<Rightarrow> bool" where
  "has_blank_run (a # b # c # r) = ((a = LF \<and> b = LF \<and> c = LF) \<or> has_blank_run (b # c # r))"
| "has_blank_run _ = False"






















section \<open>Properties\<close>

subsection \<open>Chunks, ranking and deduplication\<close>

lemma length_chunk_loop:
  "length (chunk_loop i 3 pages chunks) = length chunks + (length pages - i + 2) div 3"
proof (induction i "3::nat" pages chunks rule: chunk_loop.induct)
  case (1 i pages chunks)
  show ?case
  proof (cases "i < length pages")
    case True
    have step: "chunk_loop i 3 pages chunks =
        chunk_loop (i + 3) 3 pages (chunks @ [py_join [LF, LF] (take 3 (drop i pages))])"
      using True by (subst chunk_loop.simps) simp
    have "length (chunk_loop (i + 3) 3 pages (chunks @ [py_join [LF, LF] (take 3 (drop i pages))]))
        = length (chunks @ [py_join [LF, LF] (take 3 (drop i pages))]) + (length pages - (i + 3) + 2) div 3"
      using True by (intro 1) simp
    then show ?thesis using True unfolding step by simp arith
  next
    case False
    then show ?thesis by (subst chunk_loop.simps) simp
  qed
qed

lemma ceil3: "nat \<lceil>real n / 3\<rceil> = (n + 2) div 3"
proof -
  have "\<lceil>real n / 3\<rceil> = \<lceil>of_int (int n) / (of_int 3 :: real)\<rceil>" by simp
  also have "\<dots> = - (- int n div 3)" by (rule ceiling_divide_eq_div)
  finally show ?thesis by simp
qed

lemma foldl_extend: "foldl (\<lambda>acc chunk. acc @ f chunk) a cs = a @ concat (map f cs)"
  by (induction cs arbitrary: a) simp_all

lemma length_concat_bound:
  "(\<And>c. length (f c) \<le> n) \<Longrightarrow> length (concat (map f cs)) \<le> n * length cs"
proof (induction cs)
  case Nil
  then show ?case by simp
next
  case (Cons c cs)
  have "length (f c) \<le> n" by (rule Cons.prems)
  moreover have "length (concat (map f cs)) \<le> n * length cs" by (rule Cons.IH) (rule Cons.prems)
  ultimately show ?case by simp
qed

lemma count_concat_bound:
  "(\<And>c. length (filter P (f c)) \<le> n) \<Longrightarrow> length (filter P (concat (map f cs))) \<le> n * length cs"
proof (induction cs)
  case Nil
  then show ?case by simp
next
  case (Cons c cs)
  have "length (filter P (f c)) \<le> n" by (rule Cons.prems)
  moreover have "length (filter P (concat (map f cs))) \<le> n * length cs"
    by (rule Cons.IH) (rule Cons.prems)
  ultimately show ?case by simp
qed

lemma length_filter_take: "length (filter P (take n xs)) \<le> length (filter P xs)"
proof -
  have "length (filter P xs) = length (filter P (take n xs)) + length (filter P (drop n xs))"
    by (metis append_take_drop_id filter_append length_append)
  then show ?thesis by simp
qed

lemma count_top_scored:
  "length (filter P (map fst (take n (sort_by_score_desc (map (\<lambda>s. (s, h s)) xs)))))
     \<le> length (filter P xs)"
proof -
  let ?ys = "sort_by_score_desc (map (\<lambda>s. (s, h s)) xs)"
  have "length (filter P (map fst (take n ?ys))) = length (filter (P \<circ> fst) (take n ?ys))"
    by (simp add: filter_map)
  also have "\<dots> \<le> length (filter (P \<circ> fst) ?ys)" by (rule length_filter_take)
  also have "\<dots> = length (filter (P \<circ> fst) (map (\<lambda>s. (s, h s)) xs))"
    by (simp add: sort_by_score_desc_def filter_sort)
  also have "\<dots> = length (filter P xs)"
    by (simp add: filter_map comp_def)
  finally show ?thesis .
qed

lemma sorted_top_scored:
  "sorted_wrt (\<lambda>a b. h b \<le> h a) (map fst (take n (sort_by_score_desc (map (\<lambda>s. (s, h s)) xs))))"
proof -
  let ?ys = "sort_by_score_desc (map (\<lambda>s. (s, h s :: real)) xs)"
  have mem: "\<And>t. t \<in> set ?ys \<Longrightarrow> snd t = h (fst t)"
    by (auto simp: sort_by_score_desc_def)
  have "sorted (map (\<lambda>t. - snd t) ?ys)"
    by (simp add: sort_by_score_desc_def)
  then have "sorted_wrt (\<lambda>a b. - snd a \<le> - snd b) ?ys"
    by (simp add: sorted_map)
  then have "sorted_wrt (\<lambda>a b. - snd a \<le> - snd b) (take n ?ys)"
    by (rule sorted_wrt_take)
  then have "sorted_wrt (\<lambda>a b. h (fst b) \<le> h (fst a)) (take n ?ys)"
  proof (rule sorted_wrt_mono_rel[rotated])
    fix a b assume "a \<in> set (take n ?ys)" "b \<in> set (take n ?ys)" "- snd a \<le> - snd b"
    then show "h (fst b) \<le> h (fst a)"
      using mem[of a] mem[of b] by (auto dest!: in_set_takeD)
  qed
  then show ?thesis by (simp add: sorted_wrt_map)
qed

lemma dedup_loop_count:
  "(\<And>k. key_count k unique \<le> 1) \<Longrightarrow> (\<And>s. s \<in> set unique \<Longrightarrow> dedup_key s \<in> seen)
   \<Longrightarrow> key_count k (dedup_loop ss seen unique) \<le> 1"
proof (induction ss arbitrary: seen unique)
  case Nil
  then show ?case by simp
next
  case (Cons s ss)
  show ?case
  proof (cases "dedup_key s \<noteq> [] \<and> dedup_key s \<notin> seen")
    case True
    have "\<And>x. x \<in> set unique \<Longrightarrow> dedup_key x \<noteq> dedup_key s"
    proof
      fix x assume "x \<in> set unique" "dedup_key x = dedup_key s"
      then have "dedup_key s \<in> seen" using Cons.prems(2)[of x] by simp
      then show False using True by simp
    qed
    then have fresh: "key_count (dedup_key s) unique = 0"
      by (simp add: key_count_def filter_empty_conv)
    have "key_count k (dedup_loop ss (insert (dedup_key s) seen) (unique @ [s])) \<le> 1"
    proof (rule Cons.IH)
      fix k' show "key_count k' (unique @ [s]) \<le> 1"
        using Cons.prems(1)[of k'] fresh by (auto simp: key_count_def)
    next
      fix t assume "t \<in> set (unique @ [s])"
      then show "dedup_key t \<in> insert (dedup_key s) seen"
        using Cons.prems(2) by auto
    qed
    then show ?thesis using True by (simp add: Let_def)
  next
    case False
    have "key_count k (dedup_loop ss seen unique) \<le> 1"
      by (rule Cons.IH) (use Cons.prems in auto)
    then show ?thesis using False by (auto simp: Let_def)
  qed
qed

lemma pick_top_key_count: "key_count k (pick_top_sentences t n) \<le> 1"
proof -
  have "key_count k (dedup_loop (split_sentences t) {} []) \<le> 1"
    by (rule dedup_loop_count) (simp_all add: key_count_def)
  then show ?thesis
    unfolding pick_top_sentences_def Let_def key_count_def
    using count_top_scored[of "\<lambda>s. dedup_key s = k" n score_sentence "dedup_loop (split_sentences t) {} []"]
    by simp
qed

lemma distinct_map_count:
  "(\<And>k. length (filter (\<lambda>x. f x = k) xs) \<le> 1) \<Longrightarrow> distinct (map f xs)"
proof (induction xs)
  case Nil
  then show ?case by simp
next
  case (Cons x xs)
  have tl: "\<And>k. length (filter (\<lambda>x. f x = k) xs) \<le> 1"
  proof -
    fix k
    have "length (filter (\<lambda>x. f x = k) xs) \<le> length (filter (\<lambda>x. f x = k) (x # xs))"
      by simp
    also have "\<dots> \<le> 1" by (rule Cons.prems)
    finally show "length (filter (\<lambda>x. f x = k) xs) \<le> 1" .
  qed
  have "length (filter (\<lambda>y. f y = f x) (x # xs)) \<le> 1" by (rule Cons.prems)
  then have "filter (\<lambda>y. f y = f x) xs = []" by simp
  then have "f x \<notin> f ` set xs" by (auto simp: filter_empty_conv)
  with Cons.IH tl show ?case by simp
qed

lemma key_points_expr:
  "pages \<noteq> [] \<Longrightarrow> key_points (summarize_text pages) =
     map fst (take 12 (sort_by_score_desc (map (\<lambda>s. (s, score_sentence s))
       (concat (map (\<lambda>chunk. pick_top_sentences chunk 7) (chunk_loop 0 3 pages []))))))"
  by (simp add: summarize_text_def Let_def foldl_extend)

lemma length_pick_top_sentences: "length (pick_top_sentences t n) \<le> n"
  by (simp add: pick_top_sentences_def Let_def)

lemma length_key_points_le_12: "length (key_points (summarize_text pages)) \<le> 12"
  by (simp add: summarize_text_def Let_def)

lemma length_key_points_chunks:
  "length (key_points (summarize_text pages)) \<le> 7 * ((length pages + 2) div 3)"
proof (cases "pages = []")
  case True
  then show ?thesis by (simp add: summarize_text_def)
next
  case False
  let ?pool = "concat (map (\<lambda>chunk. pick_top_sentences chunk 7) (chunk_loop 0 3 pages []))"
  have "length (key_points (summarize_text pages)) \<le> length ?pool"
    by (simp add: key_points_expr[OF False] sort_by_score_desc_def)
  also have "\<dots> \<le> 7 * length (chunk_loop 0 3 pages [])"
    by (rule length_concat_bound) (rule length_pick_top_sentences)
  also have "\<dots> = 7 * ((length pages + 2) div 3)"
    by (simp add: length_chunk_loop)
  finally show ?thesis .
qed

lemma key_count_key_points:
  "key_count k (key_points (summarize_text pages)) \<le> (length pages + 2) div 3"
proof (cases "pages = []")
  case True
  then show ?thesis by (simp add: summarize_text_def key_count_def)
next
  case False
  let ?P = "\<lambda>s. dedup_key s = k"
  let ?pool = "concat (map (\<lambda>chunk. pick_top_sentences chunk 7) (chunk_loop 0 3 pages []))"
  have "key_count k (key_points (summarize_text pages)) \<le> length (filter ?P ?pool)"
    unfolding key_points_expr[OF False] key_count_def by (rule count_top_scored)
  also have "\<dots> \<le> 1 * length (chunk_loop 0 3 pages [])"
    by (rule count_concat_bound) (rule pick_top_key_count[unfolded key_count_def])
  also have "\<dots> = (length pages + 2) div 3"
    by (simp add: length_chunk_loop)
  finally show ?thesis .
qed

lemma sorted_key_points:
  "sorted_wrt (\<lambda>a b. score_sentence b \<le> score_sentence a) (key_points (summarize_text pages))"
proof (cases "pages = []")
  case True
  then show ?thesis by (simp add: summarize_text_def)
next
  case False
  show ?thesis unfolding key_points_expr[OF False] by (rule sorted_top_scored)
qed

text \<open>
  Claim C10. For a non-empty page list the key points number at most seven per chunk of three
  pages, that is at most \<open>7 * \<lceil>length pages / 3\<rceil>\<close>; a document of three or fewer pages
  has at most seven key points.
\<close>

theorem key_points_chunk_bound:
  assumes "pages \<noteq> []"
  shows "length (key_points (summarize_text pages)) \<le> 7 * nat \<lceil>real (length pages) / 3\<rceil>
       \<and> (length pages \<le> 3 \<longrightarrow> length (key_points (summarize_text pages)) \<le> 7)"
proof
  show "length (key_points (summarize_text pages)) \<le> 7 * nat \<lceil>real (length pages) / 3\<rceil>"
    unfolding ceil3 by (rule length_key_points_chunks)
next
  show "length pages \<le> 3 \<longrightarrow> length (key_points (summarize_text pages)) \<le> 7"
  proof
    assume "length pages \<le> 3"
    then have "(length pages + 2) div 3 \<le> 1" by arith
    then have "7 * ((length pages + 2) div 3) \<le> 7" by simp
    with length_key_points_chunks[of pages] show "length (key_points (summarize_text pages)) \<le> 7"
      by (rule le_trans)
  qed
qed

theorem key_points_chunk_bound_witness:
  "[''one page''] \<noteq> [] \<and> length [''one page''] \<le> 3
   \<and> length (key_points (summarize_text [''one page''])) \<le> 7"
  using key_points_chunk_bound[of "[''one page'']"] by simp

text \<open>
  Claim C1, as the code has it. The key points are at most twelve and are sorted by score,
  highest first. Deduplication by the normalized key happens inside each chunk only: a key
  occurs among the key points at most once per chunk, so the keys are pairwise distinct when
  the document has at most three pages. The same sentence in two chunks can be a key point
  twice.
\<close>

theorem key_points_ranked_and_deduplicated_per_chunk:
  "length (key_points (summarize_text pages)) \<le> 12
   \<and> sorted_wrt (\<lambda>a b. score_sentence b \<le> score_sentence a) (key_points (summarize_text pages))
   \<and> key_count k (key_points (summarize_text pages)) \<le> nat \<lceil>real (length pages) / 3\<rceil>
   \<and> (length pages \<le> 3 \<longrightarrow> distinct (map dedup_key (key_points (summarize_text pages))))"
proof (intro conjI impI)
  show "length (key_points (summarize_text pages)) \<le> 12" by (rule length_key_points_le_12)
  show "sorted_wrt (\<lambda>a b. score_sentence b \<le> score_sentence a) (key_points (summarize_text pages))"
    by (rule sorted_key_points)
  show "key_count k (key_points (summarize_text pages)) \<le> nat \<lceil>real (length pages) / 3\<rceil>"
    unfolding ceil3 by (rule key_count_key_points)
  assume "length pages \<le> 3"
  then have one: "(length pages + 2) div 3 \<le> 1" by arith
  show "distinct (map dedup_key (key_points (summarize_text pages)))"
  proof (rule distinct_map_count)
    fix k
    have "key_count k (key_points (summarize_text pages)) \<le> 1"
      using key_count_key_points[of k pages] one by (rule le_trans)
    then show "length (filter (\<lambda>x. dedup_key x = k) (key_points (summarize_text pages))) \<le> 1"
      by (simp add: key_count_def)
  qed
qed

theorem key_points_ranked_and_deduplicated_per_chunk_witness:
  "length [boilerplate_sentence, boilerplate_sentence, boilerplate_sentence] \<le> 3
   \<and> distinct (map dedup_key (key_points (summarize_text
         [boilerplate_sentence, boilerplate_sentence, boilerplate_sentence])))
   \<and> length (key_points (summarize_text
         [boilerplate_sentence, boilerplate_sentence, boilerplate_sentence])) \<le> 12"
  using key_points_ranked_and_deduplicated_per_chunk
          [of "[boilerplate_sentence, boilerplate_sentence, boilerplate_sentence]"]
  by simp

subsection \<open>Extraction of a missing file\<close>



subsection \<open>When the summary is empty\<close>

lemma dedup_loop_Nil_iff:
  "dedup_loop ss seen unique = [] \<longleftrightarrow>
     unique = [] \<and> (\<forall>s \<in> set ss. dedup_key s = [] \<or> dedup_key s \<in> seen)"
  by (induction ss arbitrary: seen unique) (auto simp: Let_def)

lemma set_dedup_loop: "set (dedup_loop ss seen unique) \<subseteq> set ss \<union> set unique"
proof (induction ss arbitrary: seen unique)
  case Nil
  then show ?case by simp
next
  case (Cons s ss)
  have a: "set (dedup_loop ss (insert (dedup_key s) seen) (unique @ [s])) \<subseteq> set (s # ss) \<union> set unique"
    using Cons.IH[of "insert (dedup_key s) seen" "unique @ [s]"] by auto
  have b: "set (dedup_loop ss seen unique) \<subseteq> set (s # ss) \<union> set unique"
    using Cons.IH[of seen unique] by auto
  show ?case using a b by (simp add: Let_def)
qed

lemma set_pick_top_sentences: "set (pick_top_sentences t n) \<subseteq> set (split_sentences t)"
proof -
  have "set (pick_top_sentences t n) \<subseteq> set (dedup_loop (split_sentences t) {} [])"
    by (auto simp: pick_top_sentences_def Let_def sort_by_score_desc_def dest!: in_set_takeD)
  with set_dedup_loop[of "split_sentences t" "{}" "[]"] show ?thesis by auto
qed

lemma split_sentences_long: "s \<in> set (split_sentences t) \<Longrightarrow> 30 \<le> length s"
  by (simp add: split_sentences_def Let_def)

lemma sort_key_Nil_iff: "sort_key f xs = [] \<longleftrightarrow> xs = []"
proof -
  have "length (sort_key f xs) = length xs" by (rule length_sort)
  then show ?thesis by (metis length_0_conv)
qed

lemma pick_top_sentences_Nil_iff:
  "0 < n \<Longrightarrow> pick_top_sentences t n = [] \<longleftrightarrow> (\<forall>s \<in> set (split_sentences t). dedup_key s = [])"
  by (simp add: pick_top_sentences_def Let_def sort_by_score_desc_def sort_key_Nil_iff
        dedup_loop_Nil_iff)

lemma py_join_Nil_iff:
  "(\<And>x. x \<in> set xs \<Longrightarrow> x \<noteq> []) \<Longrightarrow> py_join sep xs = [] \<longleftrightarrow> xs = []"
proof (cases xs)
  case Nil
  then show ?thesis by simp
next
  case (Cons x ys)
  assume ne: "\<And>x. x \<in> set xs \<Longrightarrow> x \<noteq> []"
  have "x \<noteq> []" using ne[of x] Cons by simp
  then show ?thesis using Cons by (cases ys) simp_all
qed

text \<open>
  Claim C2, as the code has it. Empty pages give the empty summary and no key points. The
  summary is empty exactly when the pages are empty or the text of the first three chunks
  has no candidate sentence with a non-empty key; so a non-empty summary needs non-empty
  pages, but non-empty pages need not give one.
\<close>

theorem summary_empty_iff:
  "(pages = [] \<longrightarrow> summarize_text pages = \<lparr>summary = [], key_points = []\<rparr>)
   \<and> (summary (summarize_text pages) = [] \<longleftrightarrow>
        pages = [] \<or>
        (\<forall>s \<in> set (split_sentences (py_join [LF, LF] (take 3 (chunk_loop 0 3 pages [])))).
           dedup_key s = []))"
proof (cases "pages = []")
  case True
  then show ?thesis by (simp add: summarize_text_def)
next
  case False
  let ?text = "py_join [LF, LF] (take 3 (chunk_loop 0 3 pages []))"
  have chunks: "chunk_loop 0 3 pages [] \<noteq> []"
    using False length_chunk_loop[of 0 pages "[]"] by (cases pages) auto
  have s: "summary (summarize_text pages) = py_join '' '' (pick_top_sentences ?text 8)"
    using False chunks by (simp add: summarize_text_def Let_def)
  have "\<And>x. x \<in> set (pick_top_sentences ?text 8) \<Longrightarrow> x \<noteq> []"
    using set_pick_top_sentences[of ?text 8] split_sentences_long[of _ ?text] by fastforce
  then have "py_join '' '' (pick_top_sentences ?text 8) = [] \<longleftrightarrow> pick_top_sentences ?text 8 = []"
    by (rule py_join_Nil_iff)
  then show ?thesis using False s by (simp add: pick_top_sentences_Nil_iff)
qed

theorem summary_empty_iff_witness:
  "summarize_text [] = \<lparr>summary = [], key_points = []\<rparr> \<and> summary (summarize_text []) = []"
  using summary_empty_iff[of "[]"] by simp

subsection \<open>Lines of a page\<close>

lemma py_split_not_Nil: "py_split sep s \<noteq> []"
  by (induction s) (auto split: list.splits)

lemma length_py_split: "length (py_split sep s) = Suc (length (filter (\<lambda>c. c = sep) s))"
proof (induction s)
  case Nil
  then show ?case by simp
next
  case (Cons c cs)
  then show ?case using py_split_not_Nil[of sep cs] by (auto split: list.splits)
qed

lemma py_split_no_sep: "l \<in> set (py_split sep s) \<Longrightarrow> sep \<notin> set l"
proof (induction s arbitrary: l)
  case Nil
  then show ?case by simp
next
  case (Cons c cs)
  show ?case
  proof (cases "c = sep")
    case True
    with Cons show ?thesis by auto
  next
    case False
    obtain x xs where sp: "py_split sep cs = x # xs"
      using py_split_not_Nil[of sep cs] by (cases "py_split sep cs") auto
    with Cons.prems False have "l = c # x \<or> l \<in> set xs" by simp
    then show ?thesis
    proof
      assume "l = c # x"
      moreover have "sep \<notin> set x" using Cons.IH[of x] sp by simp
      ultimately show ?thesis using False by auto
    next
      assume "l \<in> set xs"
      then show ?thesis using Cons.IH[of l] sp by simp
    qed
  qed
qed


lemma count_py_join:
  "(\<And>l. l \<in> set ls \<Longrightarrow> sep \<notin> set l) \<Longrightarrow>
     length (filter (\<lambda>c. c = sep) (py_join [sep] ls)) = length ls - 1"
proof (induction ls rule: induct_list012)
  case 1
  then show ?case by simp
next
  case (2 x)
  then show ?case by (auto simp: filter_empty_conv)
next
  case (3 x y ys)
  have "filter (\<lambda>c. c = sep) x = []" using "3.prems"[of x] by (auto simp: filter_empty_conv)
  moreover have "length (filter (\<lambda>c. c = sep) (py_join [sep] (y # ys))) = length (y # ys) - 1"
    by (rule "3.IH"(2)) (use "3.prems" in auto)
  ultimately show ?case by simp
qed

lemma length_filter_dropWhile: "length (filter P (dropWhile Q xs)) \<le> length (filter P xs)"
  by (induction xs) auto

lemma count_py_strip: "length (filter P (py_strip s)) \<le> length (filter P s)"
proof -
  have "length (filter P (py_strip s)) = length (filter P (dropWhile is_space (rev (dropWhile is_space s))))"
    by (simp add: py_strip_def flip: rev_filter)
  also have "\<dots> \<le> length (filter P (rev (dropWhile is_space s)))"
    by (rule length_filter_dropWhile)
  also have "\<dots> = length (filter P (dropWhile is_space s))"
    by (simp flip: rev_filter)
  also have "\<dots> \<le> length (filter P s)" by (rule length_filter_dropWhile)
  finally show ?thesis .
qed

lemma lines_of_strip_join:
  assumes "\<And>l. l \<in> set ls \<Longrightarrow> LF \<notin> set l" and "ls \<noteq> []"
  shows "length (py_split LF (py_strip (py_join [LF] ls))) \<le> length ls"
proof -
  have "length (filter (\<lambda>c. c = LF) (py_strip (py_join [LF] ls)))
        \<le> length (filter (\<lambda>c. c = LF) (py_join [LF] ls))"
    by (rule count_py_strip)
  also have "\<dots> = length ls - 1" using assms(1) by (rule count_py_join)
  finally show ?thesis using assms(2) by (cases ls) (simp_all add: length_py_split)
qed

lemma strip_headers_footers_long:
  assumes "8 < length (py_split LF text)"
  shows "strip_headers_footers text =
     py_strip (py_join [LF]
       (kept_lines (list_all boilerplate_line (take 4 (py_split LF text)))
                   (list_all boilerplate_line (drop (length (py_split LF text) - 4) (py_split LF text)))
                   (py_split LF text)))"
proof -
  have eq: "(\<lambda>line. is_header_footer_line line \<or> length line \<le> 2) = boilerplate_line"
    by (auto simp: fun_eq_iff boilerplate_line_def is_header_footer_line_def)
  show ?thesis using assms
    by (simp add: strip_headers_footers_def HEADER_FOOTER_MAX_LINES_def Let_def eq kept_lines_def)
qed

lemma strip_headers_footers_short:
  "length (py_split LF text) \<le> 8 \<Longrightarrow> strip_headers_footers text = text"
  by (simp add: strip_headers_footers_def HEADER_FOOTER_MAX_LINES_def Let_def)

lemma kept_lines_props:
  assumes "8 < length ls"
  shows "kept_lines a b ls \<noteq> []" and "set (kept_lines a b ls) \<subseteq> set ls"
    and "length (kept_lines a b ls) \<le> length ls"
proof -
  show "kept_lines a b ls \<noteq> []" using assms by (auto simp: kept_lines_def)
  show "set (kept_lines a b ls) \<subseteq> set ls"
    by (auto simp: kept_lines_def dest!: in_set_takeD in_set_dropD)
  show "length (kept_lines a b ls) \<le> length ls" by (simp add: kept_lines_def)
qed

text \<open>
  Claim C8. The output of \<open>strip_headers_footers\<close> never has more lines than its input, and
  a text of at most eight lines is returned unchanged.
\<close>

theorem strip_headers_footers_line_count:
  "length (py_split LF (strip_headers_footers text)) \<le> length (py_split LF text)
   \<and> (length (py_split LF text) \<le> 8 \<longrightarrow> strip_headers_footers text = text)"
proof (cases "length (py_split LF text) \<le> 8")
  case True
  then show ?thesis by (simp add: strip_headers_footers_short)
next
  case False
  then have long: "8 < length (py_split LF text)" by simp
  let ?ls = "py_split LF text"
  let ?k = "kept_lines (list_all boilerplate_line (take 4 ?ls))
              (list_all boilerplate_line (drop (length ?ls - 4) ?ls)) ?ls"
  have "length (py_split LF (py_strip (py_join [LF] ?k))) \<le> length ?k"
  proof (rule lines_of_strip_join)
    fix l assume "l \<in> set ?k"
    then have "l \<in> set ?ls" using kept_lines_props(2)[OF long] by blast
    then show "LF \<notin> set l" by (rule py_split_no_sep)
  next
    show "?k \<noteq> []" by (rule kept_lines_props(1)[OF long])
  qed
  also have "\<dots> \<le> length ?ls" by (rule kept_lines_props(3)[OF long])
  finally show ?thesis using False by (simp add: strip_headers_footers_long[OF long])
qed

theorem strip_headers_footers_line_count_witness:
  "length (py_split LF ''title'') \<le> 8 \<and> strip_headers_footers ''title'' = ''title''
   \<and> length (py_split LF (strip_headers_footers ''title'')) \<le> length (py_split LF ''title'')"
  using strip_headers_footers_line_count[of "''title''"] by (simp add: LF_def)

subsection \<open>Matching and substitution\<close>

lemma chars_distinct:
  "LF \<noteq> CR" "LF \<noteq> TAB" "LF \<noteq> NBSP" "CR \<noteq> LF" "TAB \<noteq> LF" "NBSP \<noteq> LF"
  "CHR '' '' \<noteq> CR" "CHR '' '' \<noteq> TAB" "CHR '' '' \<noteq> NBSP" "CHR '' '' \<noteq> LF"
  "CR \<noteq> TAB" "CR \<noteq> NBSP" "TAB \<noteq> CR" "NBSP \<noteq> CR"
  by code_simp+

lemma match_here_Rep_None:
  "match_here ci (Rep P lo None) p s =
     (if lo \<le> length (takeWhile P s) then Some (length (takeWhile P s)) else None)"
  by (simp add: match_here_def Let_def)

lemma match_here_line_ending:
  "match_here False pat_line_ending p (c # cs) =
     (if c = CR then (case cs of [] \<Rightarrow> Some (Suc 0) | d # _ \<Rightarrow> if d = LF then Some (Suc 1) else Some (Suc 0))
      else None)"
  by (auto simp: match_here_def pat_line_ending_def fold_case_def split: list.splits)

lemma sub_from_match:
  "match_here ci r p (c # cs) = Some (Suc k) \<Longrightarrow>
     sub_from ci r rep p (c # cs) = rep @ sub_from ci r rep (Some ((c # cs) ! k)) (drop k cs)"
  by simp

lemma sub_from_no_match:
  "match_here ci r p (c # cs) = None \<Longrightarrow>
     sub_from ci r rep p (c # cs) = c # sub_from ci r rep (Some c) cs"
  by simp

subsection \<open>py_strip\<close>

lemma last_dropWhile: "dropWhile P xs \<noteq> [] \<Longrightarrow> last (dropWhile P xs) = last xs"
  by (induction xs) (auto split: if_splits)

lemma dropWhile_self: "xs \<noteq> [] \<Longrightarrow> \<not> P (hd xs) \<Longrightarrow> dropWhile P xs = xs"
  by (cases xs) auto

lemma py_strip_ends:
  assumes "py_strip w \<noteq> []"
  shows "\<not> is_space (hd (py_strip w))" and "\<not> is_space (last (py_strip w))"
proof -
  let ?u = "dropWhile is_space w"
  let ?v = "dropWhile is_space (rev ?u)"
  have v: "?v \<noteq> []" using assms by (simp add: py_strip_def)
  have u: "?u \<noteq> []"
  proof
    assume "?u = []"
    then have "?v = []" by (simp only: rev.simps dropWhile.simps)
    with v show False by simp
  qed
  have "last (py_strip w) = hd ?v" using v by (simp add: py_strip_def last_rev)
  then show "\<not> is_space (last (py_strip w))" using hd_dropWhile[OF v] by simp
  have "hd (py_strip w) = last ?v" using v by (simp add: py_strip_def hd_rev)
  also have "\<dots> = last (rev ?u)" using v by (rule last_dropWhile)
  also have "\<dots> = hd ?u" using u by (simp add: last_rev)
  finally show "\<not> is_space (hd (py_strip w))" using hd_dropWhile[OF u] by simp
qed

lemma py_strip_fixed:
  assumes "t = [] \<or> (\<not> is_space (hd t) \<and> \<not> is_space (last t))"
  shows "py_strip t = t"
proof (cases "t = []")
  case True
  then show ?thesis by (simp add: py_strip_def)
next
  case False
  with assms have h: "\<not> is_space (hd t)" and l: "\<not> is_space (last t)" by auto
  have 1: "dropWhile is_space t = t" using False h by (rule dropWhile_self)
  have "rev t \<noteq> []" using False by simp
  moreover have "\<not> is_space (hd (rev t))" using False l by (simp add: hd_rev)
  ultimately have 2: "dropWhile is_space (rev t) = rev t" by (rule dropWhile_self)
  show ?thesis by (simp add: py_strip_def 1 2)
qed

lemma py_strip_idem: "py_strip (py_strip w) = py_strip w"
  by (rule py_strip_fixed) (use py_strip_ends[of w] in blast)

lemma py_strip_decomp: "\<exists>a b. w = a @ py_strip w @ b"
proof -
  let ?u = "dropWhile is_space w"
  have 1: "w = takeWhile is_space w @ ?u" by simp
  have "rev (rev ?u) = rev (takeWhile is_space (rev ?u) @ dropWhile is_space (rev ?u))"
    by (simp only: takeWhile_dropWhile_id)
  then have "?u = rev (dropWhile is_space (rev ?u)) @ rev (takeWhile is_space (rev ?u))"
    by (simp only: rev_rev_ident rev_append)
  then have 2: "?u = py_strip w @ rev (takeWhile is_space (rev ?u))"
    by (simp only: py_strip_def)
  have "w = takeWhile is_space w @ py_strip w @ rev (takeWhile is_space (rev ?u))"
    using 1 2 by metis
  then show ?thesis by blast
qed

lemma set_py_strip: "set (py_strip w) \<subseteq> set w"
proof -
  obtain a b where "w = a @ py_strip w @ b" using py_strip_decomp by blast
  then have "set w = set a \<union> set (py_strip w) \<union> set b" by (metis set_append Un_assoc)
  then show ?thesis by blast
qed

subsection \<open>Runs of three newlines\<close>

lemma has_blank_run_Cons: "has_blank_run t \<Longrightarrow> has_blank_run (x # t)"
  by (cases t rule: has_blank_run.cases) auto

lemma has_blank_run_prepend: "has_blank_run t \<Longrightarrow> has_blank_run (a @ t)"
  by (induction a) (auto intro: has_blank_run_Cons)

lemma has_blank_run_iff: "has_blank_run s \<longleftrightarrow> (\<exists>a b. s = a @ [LF, LF, LF] @ b)"
proof
  show "has_blank_run s \<Longrightarrow> \<exists>a b. s = a @ [LF, LF, LF] @ b"
  proof (induction s rule: has_blank_run.induct)
    case (1 a b c r)
    show ?case
    proof (cases "a = LF \<and> b = LF \<and> c = LF")
      case True
      then have "a # b # c # r = [] @ [LF, LF, LF] @ r" by simp
      then show ?thesis by blast
    next
      case False
      with 1 obtain a' b' where "b # c # r = a' @ [LF, LF, LF] @ b'" by auto
      then have "a # b # c # r = (a # a') @ [LF, LF, LF] @ b'" by simp
      then show ?thesis by blast
    qed
  qed simp_all
next
  assume "\<exists>a b. s = a @ [LF, LF, LF] @ b"
  then obtain a b where s: "s = a @ [LF, LF, LF] @ b" by blast
  have "has_blank_run ([LF, LF, LF] @ b)" by simp
  then show "has_blank_run s" unfolding s by (rule has_blank_run_prepend)
qed

lemma has_blank_run_py_strip: "has_blank_run (py_strip w) \<Longrightarrow> has_blank_run w"
proof -
  assume "has_blank_run (py_strip w)"
  then obtain x y where 1: "py_strip w = x @ [LF, LF, LF] @ y"
    unfolding has_blank_run_iff by blast
  obtain a b where "w = a @ py_strip w @ b" using py_strip_decomp by blast
  then have "w = (a @ x) @ [LF, LF, LF] @ (y @ b)" unfolding 1 by simp
  then show "has_blank_run w" unfolding has_blank_run_iff by blast
qed

lemma has_blank_run_other: "c \<noteq> LF \<Longrightarrow> has_blank_run (c # t) = has_blank_run t"
  by (cases t rule: has_blank_run.cases) auto

lemma has_blank_run_LF:
  "\<not> has_blank_run t \<Longrightarrow> length (takeWhile (\<lambda>c. c = LF) t) \<le> 1 \<Longrightarrow> \<not> has_blank_run (LF # t)"
  by (cases t rule: has_blank_run.cases) (auto split: if_splits)

lemma long_run_has_blank_run:
  "3 \<le> length (takeWhile (\<lambda>c. c = LF) s) \<Longrightarrow> has_blank_run s"
  by (cases s rule: has_blank_run.cases) (auto split: if_splits)

subsection \<open>The three substitutions\<close>

lemma sub_line_ending_no_CR: "CR \<notin> set (sub_from False pat_line_ending [LF] p s)"
proof (induction "length s" arbitrary: p s rule: less_induct)
  case less
  show ?case
  proof (cases s)
    case Nil
    then show ?thesis by simp
  next
    case (Cons c cs)
    show ?thesis
    proof (cases "c = CR")
      case False
      have "CR \<notin> set (sub_from False pat_line_ending [LF] (Some c) cs)"
        by (rule less.hyps) (simp add: Cons)
      with False Cons show ?thesis by (simp add: match_here_line_ending)
    next
      case True
      have a: "CR \<notin> set (sub_from False pat_line_ending [LF] q (drop k cs))" for q k
        by (rule less.hyps) (simp add: Cons)
      show ?thesis
      proof (cases cs)
        case Nil
        with True Cons show ?thesis by (simp add: match_here_line_ending chars_distinct)
      next
        case (Cons d ds)
        show ?thesis
        proof (cases "d = LF")
          case True
          have "match_here False pat_line_ending p (c # cs) = Some (Suc 1)"
            using \<open>c = CR\<close> Cons True by (simp add: match_here_line_ending)
          then have "sub_from False pat_line_ending [LF] p (c # cs)
              = [LF] @ sub_from False pat_line_ending [LF] (Some ((c # cs) ! 1)) (drop 1 cs)"
            by (rule sub_from_match)
          then show ?thesis using a[of "Some ((c # cs) ! 1)" 1] \<open>s = c # cs\<close>
            by (simp add: chars_distinct)
        next
          case False
          have "match_here False pat_line_ending p (c # cs) = Some (Suc 0)"
            using \<open>c = CR\<close> Cons False by (simp add: match_here_line_ending)
          then have "sub_from False pat_line_ending [LF] p (c # cs)
              = [LF] @ sub_from False pat_line_ending [LF] (Some ((c # cs) ! 0)) (drop 0 cs)"
            by (rule sub_from_match)
          then show ?thesis using a[of "Some ((c # cs) ! 0)" 0] \<open>s = c # cs\<close>
            by (simp add: chars_distinct)
        qed
      qed
    qed
  qed
qed

lemma sub_line_ending_fixed:
  "CR \<notin> set s \<Longrightarrow> sub_from False pat_line_ending [LF] p s = s"
  by (induction s arbitrary: p) (auto simp: match_here_line_ending)

lemma match_here_run:
  "match_here ci (Rep P (Suc lo) None) p (c # cs) =
     (if P c \<and> lo \<le> length (takeWhile P cs) then Some (Suc (length (takeWhile P cs))) else None)"
  by (simp add: match_here_Rep_None)

lemma sub_run_set:
  "set (sub_from ci (Rep P (Suc lo) None) rep p s) \<subseteq> set s \<union> set rep"
proof (induction "length s" arbitrary: p s rule: less_induct)
  case less
  show ?case
  proof (cases s)
    case Nil
    then show ?thesis by simp
  next
    case (Cons c cs)
    show ?thesis
    proof (cases "P c \<and> lo \<le> length (takeWhile P cs)")
      case True
      let ?k = "length (takeWhile P cs)"
      have "set (sub_from ci (Rep P (Suc lo) None) rep (Some ((c # cs) ! ?k)) (drop ?k cs))
            \<subseteq> set (drop ?k cs) \<union> set rep"
        by (rule less.hyps) (simp add: Cons)
      moreover have "set (drop ?k cs) \<subseteq> set cs" by (rule set_drop_subset)
      ultimately show ?thesis using True Cons by (auto simp: match_here_run)
    next
      case False
      have "set (sub_from ci (Rep P (Suc lo) None) rep (Some c) cs) \<subseteq> set cs \<union> set rep"
        by (rule less.hyps) (simp add: Cons)
      then show ?thesis using False Cons by (auto simp: match_here_run)
    qed
  qed
qed

lemma sub_plus_removes:
  "c \<in> set (sub_from ci (Rep P (Suc 0) None) rep p s) \<Longrightarrow> P c \<Longrightarrow> c \<in> set rep"
proof (induction "length s" arbitrary: p s rule: less_induct)
  case less
  show ?case
  proof (cases s)
    case Nil
    with less.prems show ?thesis by simp
  next
    case (Cons d ds)
    show ?thesis
    proof (cases "P d")
      case True
      let ?k = "length (takeWhile P ds)"
      have "c \<in> set rep \<or> c \<in> set (sub_from ci (Rep P (Suc 0) None) rep (Some ((d # ds) ! ?k)) (drop ?k ds))"
        using less.prems(1) True Cons by (auto simp: match_here_run)
      then show ?thesis
      proof
        assume "c \<in> set (sub_from ci (Rep P (Suc 0) None) rep (Some ((d # ds) ! ?k)) (drop ?k ds))"
        then show ?thesis using less.prems(2) by (rule less.hyps[rotated]) (simp add: Cons)
      qed simp
    next
      case False
      have "c = d \<or> c \<in> set (sub_from ci (Rep P (Suc 0) None) rep (Some d) ds)"
        using less.prems(1) False Cons by (auto simp: match_here_run)
      then show ?thesis
      proof
        assume "c = d"
        with False less.prems(2) show ?thesis by simp
      next
        assume "c \<in> set (sub_from ci (Rep P (Suc 0) None) rep (Some d) ds)"
        then show ?thesis using less.prems(2) by (rule less.hyps[rotated]) (simp add: Cons)
      qed
    qed
  qed
qed

lemma sub_run_fixed:
  "(\<And>c. c \<in> set s \<Longrightarrow> \<not> P c) \<Longrightarrow> sub_from ci (Rep P (Suc lo) None) rep p s = s"
  by (induction s arbitrary: p) (simp_all add: match_here_run)

lemma sub_blank_lines_fixed:
  "\<not> has_blank_run s \<Longrightarrow> sub_from False pat_blank_lines [LF, LF] p s = s"
proof (induction s arbitrary: p)
  case Nil
  then show ?case by simp
next
  case (Cons c cs)
  have short: "\<not> 3 \<le> length (takeWhile (\<lambda>c. c = LF) (c # cs))"
    using Cons.prems long_run_has_blank_run by blast
  have "\<not> has_blank_run cs" using Cons.prems has_blank_run_Cons by blast
  then have "sub_from False pat_blank_lines [LF, LF] (Some c) cs = cs" by (rule Cons.IH)
  moreover have "match_here False pat_blank_lines p (c # cs) = None"
    using short unfolding pat_blank_lines_def match_here_Rep_None by simp
  ultimately show ?case by simp
qed

lemma takeWhile_after_dropWhile: "takeWhile P (dropWhile P xs) = []"
  by (induction xs) auto

lemma sub_blank_lines_inv:
  "\<not> has_blank_run (sub_from False pat_blank_lines [LF, LF] p s)
   \<and> length (takeWhile (\<lambda>c. c = LF) (sub_from False pat_blank_lines [LF, LF] p s))
       = min 2 (length (takeWhile (\<lambda>c. c = LF) s))"
proof (induction "length s" arbitrary: p s rule: less_induct)
  case less
  let ?S = "sub_from False pat_blank_lines [LF, LF]"
  let ?lead = "\<lambda>t. length (takeWhile (\<lambda>c. c = LF) t)"
  show ?case
  proof (cases s)
    case Nil
    then show ?thesis by simp
  next
    case (Cons c cs)
    have m: "match_here False pat_blank_lines p (c # cs) =
        (if c = LF \<and> 2 \<le> ?lead cs then Some (Suc (?lead cs)) else None)" for p
      unfolding pat_blank_lines_def
      using match_here_run[of False "\<lambda>c. c = LF" 2 p c cs] by (simp add: numeral_3_eq_3)
    show ?thesis
    proof (cases "c = LF \<and> 2 \<le> ?lead cs")
      case True
      let ?rest = "drop (?lead cs) cs"
      have rest: "?rest = dropWhile (\<lambda>c. c = LF) cs" by (simp add: dropWhile_eq_drop)
      have lead0: "?lead ?rest = 0"
        unfolding rest by (simp only: takeWhile_after_dropWhile list.size)
      have ih: "\<not> has_blank_run (?S q ?rest) \<and> ?lead (?S q ?rest) = min 2 (?lead ?rest)" for q
        by (rule less.hyps) (simp add: Cons)
      let ?t = "?S (Some ((c # cs) ! ?lead cs)) ?rest"
      have t0: "?lead ?t = 0" and t1: "\<not> has_blank_run ?t" using ih lead0 by simp_all
      have one: "\<not> has_blank_run (LF # ?t)" using t1 t0 by (intro has_blank_run_LF) simp_all
      have "?lead (LF # ?t) \<le> 1" using t0 by simp
      with one have two: "\<not> has_blank_run (LF # LF # ?t)" by (rule has_blank_run_LF)
      have "match_here False pat_blank_lines p (c # cs) = Some (Suc (?lead cs))"
        unfolding m using True by (rule if_P)
      then have "?S p (c # cs) = [LF, LF] @ ?t" by (rule sub_from_match)
      then have out: "?S p s = LF # LF # ?t" unfolding Cons by simp
      have "?lead (LF # LF # ?t) = 2" using t0 by simp
      moreover have "min 2 (?lead s) = 2" using True Cons by simp
      ultimately show ?thesis using two out by simp
    next
      case False
      have "match_here False pat_blank_lines p (c # cs) = None"
        unfolding m using False by (rule if_not_P)
      then have "?S p (c # cs) = c # ?S (Some c) cs" by (rule sub_from_no_match)
      then have out: "?S p s = c # ?S (Some c) cs" unfolding Cons .
      have ih: "\<not> has_blank_run (?S (Some c) cs) \<and> ?lead (?S (Some c) cs) = min 2 (?lead cs)"
        by (rule less.hyps) (simp add: Cons)
      show ?thesis
      proof (cases "c = LF")
        case True
        with False have le: "?lead cs \<le> 1" by simp
        then have l: "?lead (?S (Some c) cs) = ?lead cs" using ih by simp
        have "\<not> has_blank_run (LF # ?S (Some c) cs)"
          using ih l le by (intro has_blank_run_LF) simp_all
        then show ?thesis using True out l le Cons by simp
      next
        case F: False
        then show ?thesis using out ih Cons by (simp add: has_blank_run_other)
      qed
    qed
  qed
qed

lemma re_sub_line_ending_fixed:
  "CR \<notin> set s \<Longrightarrow> re_sub False pat_line_ending [LF] s = s"
  by (simp add: re_sub_def sub_line_ending_fixed)

lemma re_sub_tab_nbsp_fixed:
  "TAB \<notin> set s \<Longrightarrow> NBSP \<notin> set s \<Longrightarrow> re_sub False pat_tab_nbsp '' '' s = s"
  unfolding re_sub_def pat_tab_nbsp_def One_nat_def by (rule sub_run_fixed) auto

lemma re_sub_blank_lines_fixed:
  "\<not> has_blank_run s \<Longrightarrow> re_sub False pat_blank_lines [LF, LF] s = s"
  by (simp add: re_sub_def sub_blank_lines_fixed)

text \<open>
  Claim C7. \<open>normalize_whitespace\<close> is idempotent.
\<close>

theorem normalize_whitespace_idempotent:
  "normalize_whitespace (normalize_whitespace x) = normalize_whitespace x"
proof -
  let ?a = "re_sub False pat_line_ending [LF] x"
  let ?b = "re_sub False pat_tab_nbsp '' '' ?a"
  let ?w = "re_sub False pat_blank_lines [LF, LF] ?b"
  let ?y = "py_strip ?w"
  have y: "normalize_whitespace x = ?y" by (simp add: normalize_whitespace_def)
  have a_CR: "CR \<notin> set ?a" unfolding re_sub_def by (rule sub_line_ending_no_CR)
  have b_set: "set ?b \<subseteq> set ?a \<union> set '' ''"
    unfolding re_sub_def pat_tab_nbsp_def One_nat_def by (rule sub_run_set)
  have b_tab: "c \<in> set ?b \<Longrightarrow> c = TAB \<or> c = NBSP \<Longrightarrow> c \<in> set '' ''" for c
    unfolding re_sub_def pat_tab_nbsp_def One_nat_def by (rule sub_plus_removes)
  have w_set: "set ?w \<subseteq> set ?b \<union> set [LF, LF]"
    unfolding re_sub_def pat_blank_lines_def numeral_3_eq_3 by (rule sub_run_set)
  have w_run: "\<not> has_blank_run ?w" unfolding re_sub_def using sub_blank_lines_inv by blast
  have sp: "CR \<notin> set '' ''" "TAB \<notin> set '' ''" "NBSP \<notin> set '' ''"
    and nl: "CR \<notin> set [LF, LF]" "TAB \<notin> set [LF, LF]" "NBSP \<notin> set [LF, LF]"
    using chars_distinct by simp_all
  have "CR \<notin> set ?b" using a_CR b_set sp(1) by blast
  then have "CR \<notin> set ?w" using w_set nl(1) by blast
  moreover have "TAB \<notin> set ?b" using b_tab[of TAB] sp(2) by blast
  then have "TAB \<notin> set ?w" using w_set nl(2) by blast
  moreover have "NBSP \<notin> set ?b" using b_tab[of NBSP] sp(3) by blast
  then have "NBSP \<notin> set ?w" using w_set nl(3) by blast
  ultimately have y_CR: "CR \<notin> set ?y" and y_TAB: "TAB \<notin> set ?y" and y_NBSP: "NBSP \<notin> set ?y"
    using set_py_strip[of ?w] by blast+
  have y_run: "\<not> has_blank_run ?y" using w_run has_blank_run_py_strip by blast
  have 1: "re_sub False pat_line_ending [LF] ?y = ?y"
    using y_CR by (simp add: re_sub_line_ending_fixed)
  have 2: "re_sub False pat_tab_nbsp '' '' ?y = ?y"
    using y_TAB y_NBSP by (simp add: re_sub_tab_nbsp_fixed)
  have 3: "re_sub False pat_blank_lines [LF, LF] ?y = ?y"
    using y_run by (simp add: re_sub_blank_lines_fixed)
  have "normalize_whitespace ?y = py_strip ?y"
    by (simp add: normalize_whitespace_def 1 2 3)
  then show ?thesis unfolding y by (simp add: py_strip_idem)
qed

subsection \<open>Header and footer blocks\<close>



subsection \<open>The domain-signal term of the score\<close>













subsection \<open>The summarizer on degenerate pages\<close>












subsection \<open>Sentence segmentation\<close>




















subsection \<open>Totality of the summarizer\<close>





section \<open>Concrete runs\<close>

lemma boilerplate_chunk_split:
  "split_sentences (py_join [LF, LF] [boilerplate_sentence, boilerplate_sentence, boilerplate_sentence])
     = [boilerplate_sentence, boilerplate_sentence, boilerplate_sentence]"
  by code_simp

lemma boilerplate_single_split:
  "split_sentences (py_join [LF, LF] [boilerplate_sentence]) = [boilerplate_sentence]"
  by code_simp

lemma boilerplate_key: "dedup_key boilerplate_sentence \<noteq> []"
  by code_simp

lemma boilerplate_chunks:
  "chunk_loop 0 3 [boilerplate_sentence, boilerplate_sentence, boilerplate_sentence,
                   boilerplate_sentence] []
     = [py_join [LF, LF] [boilerplate_sentence, boilerplate_sentence, boilerplate_sentence],
        py_join [LF, LF] [boilerplate_sentence]]"
  by (simp add: chunk_loop.simps del: py_join.simps)

lemma boilerplate_pick_three:
  "pick_top_sentences
     (py_join [LF, LF] [boilerplate_sentence, boilerplate_sentence, boilerplate_sentence]) 7
     = [boilerplate_sentence]"
  by (simp add: pick_top_sentences_def Let_def sort_by_score_desc_def boilerplate_chunk_split
        boilerplate_key del: py_join.simps)

lemma boilerplate_pick_one:
  "pick_top_sentences (py_join [LF, LF] [boilerplate_sentence]) 7 = [boilerplate_sentence]"
  by (simp add: pick_top_sentences_def Let_def sort_by_score_desc_def boilerplate_single_split
        boilerplate_key del: py_join.simps)

text \<open>
  Claim C1 as stated fails: four pages that each carry the same sentence fall into two
  chunks, each chunk contributes the sentence once, and both copies are key points.
\<close>

theorem key_points_duplicate_across_chunks:
  "key_points (summarize_text [boilerplate_sentence, boilerplate_sentence, boilerplate_sentence,
                               boilerplate_sentence])
     = [boilerplate_sentence, boilerplate_sentence]
   \<and> \<not> distinct (map dedup_key (key_points (summarize_text
         [boilerplate_sentence, boilerplate_sentence, boilerplate_sentence,
          boilerplate_sentence])))"
proof -
  have "key_points (summarize_text [boilerplate_sentence, boilerplate_sentence,
          boilerplate_sentence, boilerplate_sentence])
        = [boilerplate_sentence, boilerplate_sentence]"
    by (simp add: summarize_text_def Let_def boilerplate_chunks boilerplate_pick_three
          boilerplate_pick_one sort_by_score_desc_def del: py_join.simps)
  then show ?thesis by simp
qed

text \<open>
  Claim C2 as stated fails: the one-page document whose page is the empty string is not
  empty, and its summary is.
\<close>

theorem summary_empty_for_nonempty_pages:
  "\<not> (\<forall>pages. summary (summarize_text pages) = [] \<longleftrightarrow> pages = [])"
proof
  assume a: "\<forall>pages. summary (summarize_text pages) = [] \<longleftrightarrow> pages = []"
  have "summary (summarize_text ['''']) = []"
    by code_simp
  with a show False by simp
qed





end
